theory Spec2Isabelle
  imports Main "HOL-Library.Multiset"
begin

section \<open>Range-mode queries with a threshold: the two classes of solution.cpp\<close>

text \<open>
  The file \<^verbatim>\<open>src/solution.cpp\<close> holds two classes, \<^verbatim>\<open>Solution\<close> and
  \<^verbatim>\<open>SolutionOptimized\<close>, each with one method \<^verbatim>\<open>numOfSubarrays(nums, queries)\<close>.
  For every query \<^verbatim>\<open>(left, right, threshold)\<close> the method counts the values of
  \<^verbatim>\<open>nums[left..right]\<close> in an \<^verbatim>\<open>unordered_map<int,int>\<close> and then scans that table for
  the value of highest count (at least \<^verbatim>\<open>threshold\<close>), the smaller value on a tie.

  What the embedding makes explicit:
  \<^item> C++ \<^verbatim>\<open>int\<close> is modelled by \<open>int\<close>; the only arithmetic on it is the loop counter's
    \<^verbatim>\<open>i++\<close> and the table's \<^verbatim>\<open>freq[..]++\<close>, and the signed overflow of \<^verbatim>\<open>i++\<close> at
    \<open>INT_MAX\<close> is a branch of the model (undefined behaviour, an error value);
  \<^item> \<^verbatim>\<open>operator[]\<close> of a vector outside its bounds is undefined behaviour, an error
    value as well;
  \<^item> the order in which a range-for visits an \<^verbatim>\<open>unordered_map\<close> is not fixed by the
    language: the table is kept as an association list in order of first insertion, and
    the order of the visit is a parameter \<open>scan\<close>, a rearrangement of that list;
  \<^item> the two vectors are passed by non-const reference, so the method returns, next to
    its result, the contents the two vectors have when it returns.
\<close>

subsection \<open>Undefined behaviour as an error value\<close>

datatype error = OutOfBounds | SignedOverflow

definition INT_MAX :: int where
  "INT_MAX = 2147483647"

subsection \<open>The frequency table\<close>

text \<open>
  \<^verbatim>\<open>unordered_map<int,int> freq\<close>: pairs (value, count), one pair per key, listed in the
  order in which the keys were first inserted.
\<close>

type_synonym freq_table = "(int \<times> int) list"

text \<open>
  \<^verbatim>\<open>freq[k]++\<close>: \<^verbatim>\<open>operator[]\<close> inserts the key with count 0 when it is absent, and the
  count is then incremented.
\<close>

fun incr :: "int \<Rightarrow> freq_table \<Rightarrow> freq_table" where
  "incr k [] = [(k, 1)]"
| "incr k ((k', c) # t) = (if k = k' then (k', c + 1) # t else (k', c) # incr k t)"

text \<open>
  The order of iteration over the table. The language leaves it to the library; a
  library's order is a function of the table's history, and that history is the list.
  Every order a library can have visits each pair exactly once.
\<close>

type_synonym scan_order = "freq_table \<Rightarrow> freq_table"

definition valid_scan :: "scan_order \<Rightarrow> bool" where
  "valid_scan scan \<longleftrightarrow> (\<forall>t. mset (scan t) = mset t)"

subsection \<open>class Solution\<close>

text \<open>
  Lines 17-19: \<^verbatim>\<open>for (int i = left; i <= right; i++) freq[nums[i]]++;\<close>
  In the iteration with \<open>i = INT_MAX\<close> the increment \<^verbatim>\<open>i++\<close> overflows; no count can
  overflow in an earlier iteration, a count being at most the number of iterations run.
\<close>

function count_loop :: "int list \<Rightarrow> int \<Rightarrow> int \<Rightarrow> freq_table \<Rightarrow> error + freq_table" where
  "count_loop nums i right freq =
     (if i \<le> right then
        (if i < 0 \<or> int (length nums) \<le> i then Inl OutOfBounds
         else if i = INT_MAX then Inl SignedOverflow
         else count_loop nums (i + 1) right (incr (nums ! nat i) freq))
      else Inr freq)"
  by pat_completeness auto
termination
  by (relation "measure (\<lambda>(nums, i, right, freq). nat (right + 1 - i))") auto

declare count_loop.simps [simp del]

text \<open>
  Lines 23-34: the scan of the table, on the two variables \<^verbatim>\<open>answer\<close> and \<^verbatim>\<open>maxFreq\<close>;
  \<^verbatim>\<open>pair.first\<close> is \<open>fst pair\<close> and \<^verbatim>\<open>pair.second\<close> is \<open>snd pair\<close>.
\<close>

fun select_loop :: "int \<Rightarrow> (int \<times> int) list \<Rightarrow> int \<times> int \<Rightarrow> int \<times> int" where
  "select_loop threshold [] (answer, maxFreq) = (answer, maxFreq)"
| "select_loop threshold (pair # rest) (answer, maxFreq) =
     (if snd pair \<ge> threshold then
        (if answer = -1 \<or> snd pair > maxFreq \<or> (snd pair = maxFreq \<and> fst pair < answer)
         then select_loop threshold rest (fst pair, snd pair)
         else select_loop threshold rest (answer, maxFreq))
      else select_loop threshold rest (answer, maxFreq))"

text \<open>Lines 11-36: the body of the loop over the queries, up to the \<^verbatim>\<open>push_back\<close>.\<close>

definition answer_query :: "scan_order \<Rightarrow> int list \<Rightarrow> int list \<Rightarrow> error + int" where
  "answer_query scan nums query =
     (if length query < 3 then Inl OutOfBounds
      else
        let left = query ! 0; right = query ! 1; threshold = query ! 2 in
        case count_loop nums left right [] of
          Inl e \<Rightarrow> Inl e
        | Inr freq \<Rightarrow> Inr (fst (select_loop threshold (scan freq) (-1, 0))))"

text \<open>
  Lines 10-37: the loop over the queries. The state is the local \<^verbatim>\<open>result\<close> and the two
  vectors the method holds references to.
\<close>

fun query_loop :: "scan_order \<Rightarrow> int list list \<Rightarrow> int list \<times> int list \<times> int list list
    \<Rightarrow> error + (int list \<times> int list \<times> int list list)" where
  "query_loop scan [] (result, nums, queries) = Inr (result, nums, queries)"
| "query_loop scan (query # rest) (result, nums, queries) =
     (case answer_query scan nums query of
        Inl e \<Rightarrow> Inl e
      | Inr answer \<Rightarrow> query_loop scan rest (result @ [answer], nums, queries))"

text \<open>
  \<^verbatim>\<open>Solution::numOfSubarrays\<close>: the result, and the two vectors as the call leaves them.
\<close>

definition numOfSubarrays :: "scan_order \<Rightarrow> int list \<Rightarrow> int list list
    \<Rightarrow> error + (int list \<times> int list \<times> int list list)" where
  "numOfSubarrays scan nums queries = query_loop scan queries ([], nums, queries)"

subsection \<open>class SolutionOptimized\<close>

text \<open>Lines 55-57.\<close>

function count_loop_opt :: "int list \<Rightarrow> int \<Rightarrow> int \<Rightarrow> freq_table \<Rightarrow> error + freq_table" where
  "count_loop_opt nums i right freq =
     (if i \<le> right then
        (if i < 0 \<or> int (length nums) \<le> i then Inl OutOfBounds
         else if i = INT_MAX then Inl SignedOverflow
         else count_loop_opt nums (i + 1) right (incr (nums ! nat i) freq))
      else Inr freq)"
  by pat_completeness auto
termination
  by (relation "measure (\<lambda>(nums, i, right, freq). nat (right + 1 - i))") auto

declare count_loop_opt.simps [simp del]

text \<open>
  Lines 59-70, with the structured binding \<^verbatim>\<open>auto& [val, count]\<close>; the count is written
  \<open>cnt\<close> here.
\<close>

fun select_loop_opt :: "int \<Rightarrow> (int \<times> int) list \<Rightarrow> int \<times> int \<Rightarrow> int \<times> int" where
  "select_loop_opt threshold [] (answer, maxFreq) = (answer, maxFreq)"
| "select_loop_opt threshold ((val, cnt) # rest) (answer, maxFreq) =
     (if cnt \<ge> threshold then
        (if answer = -1 \<or> cnt > maxFreq \<or> (cnt = maxFreq \<and> val < answer)
         then select_loop_opt threshold rest (val, cnt)
         else select_loop_opt threshold rest (answer, maxFreq))
      else select_loop_opt threshold rest (answer, maxFreq))"

definition answer_query_opt :: "scan_order \<Rightarrow> int list \<Rightarrow> int list \<Rightarrow> error + int" where
  "answer_query_opt scan nums query =
     (if length query < 3 then Inl OutOfBounds
      else
        let left = query ! 0; right = query ! 1; threshold = query ! 2 in
        case count_loop_opt nums left right [] of
          Inl e \<Rightarrow> Inl e
        | Inr freq \<Rightarrow> Inr (fst (select_loop_opt threshold (scan freq) (-1, 0))))"

fun query_loop_opt :: "scan_order \<Rightarrow> int list list \<Rightarrow> int list \<times> int list \<times> int list list
    \<Rightarrow> error + (int list \<times> int list \<times> int list list)" where
  "query_loop_opt scan [] (result, nums, queries) = Inr (result, nums, queries)"
| "query_loop_opt scan (query # rest) (result, nums, queries) =
     (case answer_query_opt scan nums query of
        Inl e \<Rightarrow> Inl e
      | Inr answer \<Rightarrow> query_loop_opt scan rest (result @ [answer], nums, queries))"

definition numOfSubarrays_opt :: "scan_order \<Rightarrow> int list \<Rightarrow> int list list
    \<Rightarrow> error + (int list \<times> int list \<times> int list list)" where
  "numOfSubarrays_opt scan nums queries = query_loop_opt scan queries ([], nums, queries)"

subsection \<open>The notions of the specification\<close>

text \<open>\<open>array[left..right]\<close>, both bounds included.\<close>

definition slice :: "int list \<Rightarrow> int \<Rightarrow> int \<Rightarrow> int list" where
  "slice nums left right = take (nat (right - left + 1)) (drop (nat left) nums)"

text \<open>The occurrence count of a value in \<open>array[left..right]\<close>.\<close>

definition occ :: "int list \<Rightarrow> int \<Rightarrow> int \<Rightarrow> int \<Rightarrow> int" where
  "occ nums left right v = int (count_list (slice nums left right) v)"

text \<open>
  The preconditions of a query: it has its three entries, and
  \<open>0 \<le> left \<le> right < length(array)\<close>.
\<close>

definition valid_query :: "int list \<Rightarrow> int list \<Rightarrow> bool" where
  "valid_query nums query \<longleftrightarrow>
     3 \<le> length query \<and> 0 \<le> query ! 0 \<and> query ! 0 \<le> query ! 1 \<and> query ! 1 < int (length nums)"

subsection \<open>Notions used in the proofs\<close>

text \<open>The count a table holds for a key, 0 for a key it does not hold.\<close>

definition cnt_of :: "freq_table \<Rightarrow> int \<Rightarrow> int" where
  "cnt_of t k = (case map_of t k of None \<Rightarrow> 0 | Some c \<Rightarrow> c)"

text \<open>The table lines 16-19 build for \<open>array[left..right]\<close>.\<close>

definition table :: "int list \<Rightarrow> int \<Rightarrow> int \<Rightarrow> freq_table" where
  "table nums left right = fold incr (slice nums left right) []"

text \<open>
  The priority of lines 21-22 on pairs (value, count): the higher count first, the
  smaller value on equal counts.
\<close>

definition beats :: "int \<times> int \<Rightarrow> int \<times> int \<Rightarrow> bool" where
  "beats p q \<longleftrightarrow> snd p > snd q \<or> (snd p = snd q \<and> fst p < fst q)"

section \<open>Lemmas about the loops\<close>

subsection \<open>The frequency table\<close>

lemma map_of_incr: "map_of (incr k t) = (map_of t)(k \<mapsto> cnt_of t k + 1)"
  by (induction t) (auto simp: cnt_of_def fun_eq_iff)

lemma keys_incr: "fst ` set (incr k t) = insert k (fst ` set t)"
  by (induction k t rule: incr.induct) (simp_all add: insert_commute)

lemma distinct_incr: "distinct (map fst t) \<Longrightarrow> distinct (map fst (incr k t))"
proof (induction t)
  case Nil
  then show ?case by simp
next
  case (Cons p t)
  obtain k' c where p: "p = (k', c)" by (cases p)
  from Cons show ?case
    using keys_incr [of k t] by (auto simp: p)
qed

lemma cnt_of_incr: "cnt_of (incr k t) k' = cnt_of t k' + (if k' = k then 1 else 0)"
  by (simp add: cnt_of_def map_of_incr)

lemma cnt_of_fold: "cnt_of (fold incr xs t) k = cnt_of t k + int (count_list xs k)"
  by (induction xs arbitrary: t) (auto simp: cnt_of_incr)

lemma keys_fold: "fst ` set (fold incr xs t) = set xs \<union> fst ` set t"
  by (induction xs arbitrary: t) (auto simp: keys_incr)

lemma distinct_fold: "distinct (map fst t) \<Longrightarrow> distinct (map fst (fold incr xs t))"
  by (induction xs arbitrary: t) (auto simp: distinct_incr)

lemma table_entries:
  "(k, c) \<in> set (fold incr xs []) \<longleftrightarrow> k \<in> set xs \<and> c = int (count_list xs k)"
proof -
  let ?t = "fold incr xs []"
  have d: "distinct (map fst ?t)" by (rule distinct_fold) simp
  have kk: "fst ` set ?t = set xs" using keys_fold [of xs "[]"] by simp
  have cc: "cnt_of ?t k = int (count_list xs k)" using cnt_of_fold [of xs "[]" k] by (simp add: cnt_of_def)
  show ?thesis
  proof
    assume "(k, c) \<in> set ?t"
    then have "map_of ?t k = Some c" using d by simp
    then have "cnt_of ?t k = c" by (simp add: cnt_of_def)
    moreover have "k \<in> set xs" using \<open>(k, c) \<in> set ?t\<close> kk by force
    ultimately show "k \<in> set xs \<and> c = int (count_list xs k)" using cc by simp
  next
    assume a: "k \<in> set xs \<and> c = int (count_list xs k)"
    then have "k \<in> fst ` set ?t" using kk by simp
    then obtain c' where c': "(k, c') \<in> set ?t" by auto
    then have "map_of ?t k = Some c'" using d by simp
    then have "cnt_of ?t k = c'" by (simp add: cnt_of_def)
    then show "(k, c) \<in> set ?t" using c' cc a by simp
  qed
qed

lemma slice_step:
  assumes "0 \<le> i" "i \<le> right" "right < int (length nums)"
  shows "slice nums i right = nums ! nat i # slice nums (i + 1) right"
proof -
  have n: "nat i < length nums" using assms by linarith
  have "drop (nat i) nums = nums ! nat i # drop (Suc (nat i)) nums"
    using n by (simp add: Cons_nth_drop_Suc)
  moreover have "nat (right - i + 1) = Suc (nat (right - (i + 1) + 1))" using assms by linarith
  moreover have "nat (i + 1) = Suc (nat i)" using assms by linarith
  ultimately show ?thesis by (simp add: slice_def)
qed

lemma slice_empty: "right < i \<Longrightarrow> slice nums i right = []"
  by (simp add: slice_def)

lemma count_loop_fold:
  "0 \<le> i \<Longrightarrow> right < int (length nums) \<Longrightarrow> right < INT_MAX \<Longrightarrow>
   count_loop nums i right freq = Inr (fold incr (slice nums i right) freq)"
proof (induction nums i right freq rule: count_loop.induct)
  case (1 nums i right freq)
  show ?case
  proof (cases "i \<le> right")
    case True
    with 1 show ?thesis
      by (subst count_loop.simps) (simp add: slice_step)
  next
    case False
    then show ?thesis
      by (subst count_loop.simps) (simp add: slice_empty)
  qed
qed

lemma count_loop_Inr:
  "0 \<le> i \<Longrightarrow> right < int (length nums) \<Longrightarrow> count_loop nums i right freq = Inr t \<Longrightarrow>
   t = fold incr (slice nums i right) freq"
proof (induction nums i right freq rule: count_loop.induct)
  case (1 nums i right freq)
  show ?case
  proof (cases "i \<le> right")
    case True
    have ne: "i \<noteq> INT_MAX" using 1(4) True 1(2,3)
      by (subst (asm) count_loop.simps) (auto split: if_splits)
    have "count_loop nums (i + 1) right (incr (nums ! nat i) freq) = Inr t"
      using 1(4) True 1(2,3) ne by (subst (asm) count_loop.simps) (simp split: if_splits)
    then have "t = fold incr (slice nums (i + 1) right) (incr (nums ! nat i) freq)"
      using 1(1) True 1(2,3) ne by simp
    then show ?thesis using True 1(2,3) by (simp add: slice_step)
  next
    case False
    then show ?thesis using 1(4)
      by (subst (asm) count_loop.simps) (simp add: slice_empty)
  qed
qed

subsection \<open>The scan of the table\<close>


lemma select_loop_none:
  "\<forall>p\<in>set ps. snd p < th \<Longrightarrow> select_loop th ps (a, m) = (a, m)"
  by (induction ps) auto

lemma select_loop_inv:
  assumes "a \<noteq> -1" and "\<forall>p\<in>set ps. th \<le> snd p \<longrightarrow> fst p \<noteq> -1"
  shows "fst (select_loop th ps (a, m)) \<noteq> -1 \<and>
         (select_loop th ps (a, m) = (a, m) \<or>
            (select_loop th ps (a, m) \<in> set ps \<and> th \<le> snd (select_loop th ps (a, m)))) \<and>
         \<not> beats (a, m) (select_loop th ps (a, m)) \<and>
         (\<forall>p\<in>set ps. th \<le> snd p \<longrightarrow> \<not> beats p (select_loop th ps (a, m)))"
  using assms
proof (induction ps arbitrary: a m)
  case Nil
  then show ?case by (simp add: beats_def)
next
  case (Cons p ps)
  obtain v c where p: "p = (v, c)" by (cases p)
  show ?case
  proof (cases "th \<le> c \<and> (c > m \<or> (c = m \<and> v < a))")
    case True
    then have v: "v \<noteq> -1" using Cons.prems(2) by (simp add: p)
    have step: "select_loop th (p # ps) (a, m) = select_loop th ps (v, c)"
      using True by (simp add: p)
    have IH: "fst (select_loop th ps (v, c)) \<noteq> -1 \<and>
         (select_loop th ps (v, c) = (v, c) \<or>
            (select_loop th ps (v, c) \<in> set ps \<and> th \<le> snd (select_loop th ps (v, c)))) \<and>
         \<not> beats (v, c) (select_loop th ps (v, c)) \<and>
         (\<forall>p\<in>set ps. th \<le> snd p \<longrightarrow> \<not> beats p (select_loop th ps (v, c)))"
      using Cons.IH [OF v] Cons.prems(2) by simp
    obtain r mr where r: "select_loop th ps (v, c) = (r, mr)" by (cases "select_loop th ps (v, c)")
    from IH True show ?thesis
      unfolding step r by (auto simp: beats_def p)
  next
    case False
    have step: "select_loop th (p # ps) (a, m) = select_loop th ps (a, m)"
      using False Cons.prems(1) by (auto simp: p)
    have IH: "fst (select_loop th ps (a, m)) \<noteq> -1 \<and>
         (select_loop th ps (a, m) = (a, m) \<or>
            (select_loop th ps (a, m) \<in> set ps \<and> th \<le> snd (select_loop th ps (a, m)))) \<and>
         \<not> beats (a, m) (select_loop th ps (a, m)) \<and>
         (\<forall>p\<in>set ps. th \<le> snd p \<longrightarrow> \<not> beats p (select_loop th ps (a, m)))"
      using Cons.IH [OF Cons.prems(1)] Cons.prems(2) by simp
    obtain r mr where r: "select_loop th ps (a, m) = (r, mr)" by (cases "select_loop th ps (a, m)")
    from IH False show ?thesis
      unfolding step r by (auto simp: beats_def p)
  qed
qed

lemma select_loop_first:
  assumes "\<forall>p\<in>set ps. th \<le> snd p \<longrightarrow> fst p \<noteq> -1"
  shows "if \<exists>p\<in>set ps. th \<le> snd p
         then select_loop th ps (-1, 0) \<in> set ps \<and> th \<le> snd (select_loop th ps (-1, 0)) \<and>
              (\<forall>p\<in>set ps. th \<le> snd p \<longrightarrow> \<not> beats p (select_loop th ps (-1, 0)))
         else select_loop th ps (-1, 0) = (-1, 0)"
  using assms
proof (induction ps)
  case Nil
  then show ?case by simp
next
  case (Cons p ps)
  obtain v c where p: "p = (v, c)" by (cases p)
  show ?case
  proof (cases "th \<le> c")
    case True
    then have v: "v \<noteq> -1" using Cons.prems by (simp add: p)
    have step: "select_loop th (p # ps) (-1, 0) = select_loop th ps (v, c)"
      using True by (simp add: p)
    have inv: "(select_loop th ps (v, c) = (v, c) \<or>
            (select_loop th ps (v, c) \<in> set ps \<and> th \<le> snd (select_loop th ps (v, c)))) \<and>
         \<not> beats (v, c) (select_loop th ps (v, c)) \<and>
         (\<forall>p\<in>set ps. th \<le> snd p \<longrightarrow> \<not> beats p (select_loop th ps (v, c)))"
      using select_loop_inv [OF v, of ps th c] Cons.prems by simp
    from inv True show ?thesis
      unfolding step by (auto simp: p)
  next
    case False
    have step: "select_loop th (p # ps) (-1, 0) = select_loop th ps (-1, 0)"
      using False by (simp add: p)
    from Cons False show ?thesis
      unfolding step by (auto simp: p)
  qed
qed

text \<open>
  What line 28 does with the value \<open>-1\<close>: when a pair that reaches the threshold is visited
  after the key \<open>-1\<close>, the scan does not end on \<open>-1\<close>, whatever the count of \<open>-1\<close>.
\<close>

lemma select_loop_append:
  "select_loop th (xs @ ys) s = select_loop th ys (select_loop th xs s)"
proof (induction xs arbitrary: s)
  case Nil
  then show ?case by (cases s) simp
next
  case (Cons p xs)
  obtain a m where s: "s = (a, m)" by (cases s)
  show ?case unfolding s by (simp add: Cons)
qed

lemma select_loop_leaves_minus_one:
  assumes "\<forall>p\<in>set ys. fst p \<noteq> -1" and "a \<noteq> -1 \<or> (\<exists>p\<in>set ys. th \<le> snd p)"
  shows "fst (select_loop th ys (a, m)) \<noteq> -1"
  using assms
proof (induction ys arbitrary: a m)
  case Nil
  then show ?case by simp
next
  case (Cons p ys)
  obtain v c where p: "p = (v, c)" by (cases p)
  have v: "v \<noteq> -1" using Cons.prems(1) by (simp add: p)
  have ys: "\<forall>p\<in>set ys. fst p \<noteq> -1" using Cons.prems(1) by simp
  show ?case
  proof (cases "th \<le> c \<and> (a = -1 \<or> c > m \<or> (c = m \<and> v < a))")
    case True
    then have "select_loop th (p # ys) (a, m) = select_loop th ys (v, c)" by (simp add: p)
    then show ?thesis using Cons.IH [OF ys, of v c] v by simp
  next
    case False
    then have step: "select_loop th (p # ys) (a, m) = select_loop th ys (a, m)"
      by (auto simp: p)
    have "a \<noteq> -1 \<or> (\<exists>p\<in>set ys. th \<le> snd p)"
      using Cons.prems(2) False by (auto simp: p)
    then show ?thesis using Cons.IH [OF ys, of a m] step by simp
  qed
qed

lemma minus_one_only_when_last:
  assumes "ps = xs @ ys" and "\<forall>p\<in>set ys. fst p \<noteq> -1" and "\<exists>p\<in>set ys. th \<le> snd p"
  shows "fst (select_loop th ps (-1, 0)) \<noteq> -1"
proof -
  obtain a m where s: "select_loop th xs (-1, 0) = (a, m)" by (cases "select_loop th xs (-1, 0)")
  show ?thesis
    unfolding assms(1) select_loop_append s
    using assms(2,3) by (intro select_loop_leaves_minus_one) simp_all
qed

subsection \<open>One query\<close>


lemma valid_scan_set: "valid_scan scan \<Longrightarrow> set (scan t) = set t"
  unfolding valid_scan_def by (metis mset_eq_setD)

lemma table_entry:
  "(k, c) \<in> set (table nums left right) \<longleftrightarrow> 1 \<le> c \<and> c = occ nums left right k"
proof -
  have "k \<in> set (slice nums left right) \<longleftrightarrow> 1 \<le> occ nums left right k"
    using count_list_0_iff [of "slice nums left right" k] by (auto simp: occ_def)
  then show ?thesis
    by (auto simp: table_def table_entries occ_def)
qed

lemma answer_query_run:
  assumes "valid_query nums query" and "query ! 1 < INT_MAX"
  shows "answer_query scan nums query =
    Inr (fst (select_loop (query ! 2) (scan (table nums (query ! 0) (query ! 1))) (-1, 0)))"
proof -
  have "count_loop nums (query ! 0) (query ! 1) [] = Inr (table nums (query ! 0) (query ! 1))"
    unfolding table_def using assms by (intro count_loop_fold) (simp_all add: valid_query_def)
  then show ?thesis
    using assms(1) by (simp add: answer_query_def valid_query_def)
qed

lemma answer_query_cases:
  assumes "valid_query nums query"
  shows "(\<exists>e. \<forall>scan. answer_query scan nums query = Inl e) \<or>
    (\<forall>scan. answer_query scan nums query =
       Inr (fst (select_loop (query ! 2) (scan (table nums (query ! 0) (query ! 1))) (-1, 0))))"
proof (cases "count_loop nums (query ! 0) (query ! 1) []")
  case (Inl e)
  then have "\<forall>scan. answer_query scan nums query = Inl e"
    using assms by (simp add: answer_query_def valid_query_def)
  then show ?thesis by blast
next
  case (Inr t)
  have "t = table nums (query ! 0) (query ! 1)"
    unfolding table_def using assms Inr by (intro count_loop_Inr) (simp_all add: valid_query_def)
  then have "\<forall>scan. answer_query scan nums query =
       Inr (fst (select_loop (query ! 2) (scan (table nums (query ! 0) (query ! 1))) (-1, 0)))"
    using assms Inr by (simp add: answer_query_def valid_query_def)
  then show ?thesis by blast
qed

lemma answer_query_Inr:
  assumes "valid_query nums query" and "answer_query scan nums query = Inr a"
  shows "a = fst (select_loop (query ! 2) (scan (table nums (query ! 0) (query ! 1))) (-1, 0))"
  using answer_query_cases [OF assms(1)] assms(2) by auto

lemma answer_query_none:
  assumes "valid_scan scan" and "valid_query nums query"
    and "answer_query scan nums query = Inr a"
    and "\<forall>v. occ nums (query ! 0) (query ! 1) v < query ! 2"
  shows "a = -1"
proof -
  have "\<forall>p\<in>set (scan (table nums (query ! 0) (query ! 1))). snd p < query ! 2"
    unfolding valid_scan_set [OF assms(1)] using assms(4) by (auto simp only: table_entry snd_conv)
  then show ?thesis
    unfolding answer_query_Inr [OF assms(2,3)] by (simp only: select_loop_none fst_conv)
qed

lemma select_table_correct:
  assumes "valid_scan scan" and "1 \<le> th" and "occ nums l r (-1) < th"
    and "a = fst (select_loop th (scan (table nums l r)) (-1, 0))"
  shows "(a = -1 \<longleftrightarrow> (\<forall>v. occ nums l r v < th)) \<and>
         (a \<noteq> -1 \<longrightarrow> th \<le> occ nums l r a \<and>
            (\<forall>v. th \<le> occ nums l r v \<longrightarrow>
               \<not> (occ nums l r v > occ nums l r a \<or>
                  (occ nums l r v = occ nums l r a \<and> v < a))))"
proof -
  let ?t = "table nums l r"
  let ?ps = "scan ?t"
  let ?r = "select_loop th ?ps (-1, 0)"
  let ?occ = "occ nums l r"
  have S: "set ?ps = set ?t" by (rule valid_scan_set [OF assms(1)])
  have a: "a = fst ?r" by (rule assms(4))
  have no: "\<forall>p\<in>set ?ps. th \<le> snd p \<longrightarrow> fst p \<noteq> -1"
    using assms(3) by (auto simp: S table_entry)
  have q: "(\<exists>p\<in>set ?ps. th \<le> snd p) \<longleftrightarrow> (\<exists>v. th \<le> ?occ v)"
  proof
    assume "\<exists>p\<in>set ?ps. th \<le> snd p"
    then show "\<exists>v. th \<le> ?occ v" by (auto simp: S table_entry)
  next
    assume "\<exists>v. th \<le> ?occ v"
    then obtain v where v: "th \<le> ?occ v" ..
    then have "(v, ?occ v) \<in> set ?ps" using assms(2) by (simp add: S table_entry)
    then show "\<exists>p\<in>set ?ps. th \<le> snd p" using v by force
  qed
  show ?thesis
  proof (cases "\<exists>v. th \<le> ?occ v")
    case False
    then have "?r = (-1, 0)" using select_loop_first [OF no] q by auto
    then show ?thesis using False a by (auto simp: not_le)
  next
    case True
    then have r: "?r \<in> set ?ps \<and> th \<le> snd ?r \<and>
        (\<forall>p\<in>set ?ps. th \<le> snd p \<longrightarrow> \<not> beats p ?r)"
      using select_loop_first [OF no] q by auto
    obtain mr where rr: "?r = (a, mr)" using a by (cases ?r) simp
    have mr: "mr = ?occ a" "th \<le> mr" using r by (auto simp: rr S table_entry)
    have a1: "a \<noteq> -1" using no r by (auto simp: rr)
    have best: "\<not> beats (v, ?occ v) (a, mr)" if "th \<le> ?occ v" for v
    proof -
      have "(v, ?occ v) \<in> set ?ps" using that assms(2) by (simp add: S table_entry)
      then show ?thesis using r that by (auto simp: rr)
    qed
    show ?thesis using True a1 mr best by (auto simp: beats_def not_less)
  qed
qed

lemma answer_query_correct:
  assumes "valid_scan scan" and "valid_query nums query"
    and "1 \<le> query ! 2"
    and "occ nums (query ! 0) (query ! 1) (-1) < query ! 2"
    and "answer_query scan nums query = Inr a"
  shows "(a = -1 \<longleftrightarrow> (\<forall>v. occ nums (query ! 0) (query ! 1) v < query ! 2)) \<and>
         (a \<noteq> -1 \<longrightarrow> query ! 2 \<le> occ nums (query ! 0) (query ! 1) a \<and>
            (\<forall>v. query ! 2 \<le> occ nums (query ! 0) (query ! 1) v \<longrightarrow>
               \<not> (occ nums (query ! 0) (query ! 1) v > occ nums (query ! 0) (query ! 1) a \<or>
                  (occ nums (query ! 0) (query ! 1) v = occ nums (query ! 0) (query ! 1) a \<and> v < a))))"
  by (rule select_table_correct [OF assms(1) assms(3) assms(4) answer_query_Inr [OF assms(2,5)]])

lemma answer_query_scan_independent:
  assumes "valid_scan scan" and "valid_scan scan'" and "valid_query nums query"
    and "1 \<le> query ! 2"
    and "occ nums (query ! 0) (query ! 1) (-1) < query ! 2"
  shows "answer_query scan nums query = answer_query scan' nums query"
proof -
  let ?occ = "occ nums (query ! 0) (query ! 1)"
  from answer_query_cases [OF assms(3)] show ?thesis
  proof
    assume "\<exists>e. \<forall>scan. answer_query scan nums query = Inl e"
    then show ?thesis by metis
  next
    assume "\<forall>scan. answer_query scan nums query =
       Inr (fst (select_loop (query ! 2) (scan (table nums (query ! 0) (query ! 1))) (-1, 0)))"
    then obtain a b where a: "answer_query scan nums query = Inr a"
      and b: "answer_query scan' nums query = Inr b"
      by blast
    note A = answer_query_correct [OF assms(1) assms(3-5) a]
    note B = answer_query_correct [OF assms(2) assms(3-5) b]
    have "a = b"
    proof (cases "\<forall>v. ?occ v < query ! 2")
      case True
      then show ?thesis using A B by simp
    next
      case False
      then have "a \<noteq> -1" "b \<noteq> -1" using A B by auto
      then have "query ! 2 \<le> ?occ a" "query ! 2 \<le> ?occ b"
        "\<not> (?occ b > ?occ a \<or> (?occ b = ?occ a \<and> b < a))"
        "\<not> (?occ a > ?occ b \<or> (?occ a = ?occ b \<and> a < b))"
        using A B by auto
      then show ?thesis by linarith
    qed
    then show ?thesis using a b by simp
  qed
qed

subsection \<open>The loops as a whole\<close>


lemma count_loop_overflow:
  "0 \<le> i \<Longrightarrow> i \<le> INT_MAX \<Longrightarrow> INT_MAX \<le> right \<Longrightarrow> right < int (length nums) \<Longrightarrow>
   count_loop nums i right freq = Inl SignedOverflow"
proof (induction nums i right freq rule: count_loop.induct)
  case (1 nums i right freq)
  show ?case
  proof (cases "i = INT_MAX")
    case True
    then show ?thesis using 1(2-5) by (subst count_loop.simps) simp
  next
    case False
    then have "count_loop nums (i + 1) right (incr (nums ! nat i) freq) = Inl SignedOverflow"
      using 1 by simp
    then show ?thesis using False 1(2-5) by (subst count_loop.simps) simp
  qed
qed

lemma count_loop_agree:
  "0 \<le> i \<Longrightarrow> right < int (length nums) \<Longrightarrow> right < int (length nums') \<Longrightarrow>
   (\<forall>j. i \<le> j \<and> j \<le> right \<longrightarrow> nums ! nat j = nums' ! nat j) \<Longrightarrow>
   count_loop nums i right freq = count_loop nums' i right freq"
proof (induction nums i right freq rule: count_loop.induct)
  case (1 nums i right freq)
  show ?case
  proof (cases "i \<le> right \<and> i \<noteq> INT_MAX")
    case True
    then have "count_loop nums (i + 1) right (incr (nums ! nat i) freq) =
        count_loop nums' (i + 1) right (incr (nums ! nat i) freq)"
      using 1 by simp
    moreover have "nums ! nat i = nums' ! nat i" using True 1(5) by simp
    ultimately show ?thesis
      using True 1(2-4)
      by (subst count_loop.simps, subst (2) count_loop.simps) simp
  next
    case False
    then show ?thesis using 1(2-4)
      by (subst count_loop.simps, subst (2) count_loop.simps) auto
  qed
qed

lemma query_loop_frame:
  "query_loop scan qs (result, nums, queries) = Inr (result', nums', queries') \<Longrightarrow>
   nums' = nums \<and> queries' = queries"
  by (induction qs arbitrary: result) (auto split: sum.splits)

lemma query_loop_result:
  "query_loop scan qs (result, nums, queries) = Inr (result', nums', queries') \<Longrightarrow>
   \<exists>as. result' = result @ as \<and> length as = length qs \<and>
     (\<forall>i<length qs. answer_query scan nums (qs ! i) = Inr (as ! i))"
proof (induction qs arbitrary: result)
  case Nil
  then show ?case by simp
next
  case (Cons q qs)
  from Cons.prems obtain a where a: "answer_query scan nums q = Inr a"
    and rest: "query_loop scan qs (result @ [a], nums, queries) = Inr (result', nums', queries')"
    by (auto split: sum.splits)
  from Cons.IH [OF rest] obtain as where as: "result' = (result @ [a]) @ as"
    "length as = length qs" "\<forall>i<length qs. answer_query scan nums (qs ! i) = Inr (as ! i)"
    by blast
  have "\<forall>i<length (q # qs). answer_query scan nums ((q # qs) ! i) = Inr ((a # as) ! i)"
    using a as(3) by (auto simp: nth_Cons split: nat.splits)
  then show ?case using as(1,2) by (intro exI [of _ "a # as"]) simp
qed

lemma query_loop_total:
  "\<forall>q\<in>set qs. \<exists>a. answer_query scan nums q = Inr a \<Longrightarrow>
   \<exists>result'. query_loop scan qs (result, nums, queries) = Inr (result', nums, queries)"
proof (induction qs arbitrary: result)
  case Nil
  then show ?case by simp
next
  case (Cons q qs)
  then obtain a where a: "answer_query scan nums q = Inr a" by auto
  from Cons obtain r where "query_loop scan qs (result @ [a], nums, queries) = Inr (r, nums, queries)"
    by fastforce
  then show ?case using a by simp
qed

lemma numOfSubarrays_nth:
  assumes "numOfSubarrays scan nums queries = Inr (result, nums', queries')"
  shows "length result = length queries \<and>
    (\<forall>i<length queries. answer_query scan nums (queries ! i) = Inr (result ! i))"
  using query_loop_result [of scan queries "[]" nums queries result nums' queries'] assms
  by (auto simp: numOfSubarrays_def)

lemma count_loop_opt_eq: "count_loop_opt nums i right freq = count_loop nums i right freq"
proof (induction nums i right freq rule: count_loop.induct)
  case (1 nums i right freq)
  then show ?case
    by (subst count_loop.simps, subst count_loop_opt.simps) simp
qed

lemma select_loop_opt_eq: "select_loop_opt threshold ps s = select_loop threshold ps s"
proof (induction ps arbitrary: s)
  case Nil
  then show ?case by (cases s) simp
next
  case (Cons p ps)
  then show ?case by (cases s; cases p) simp
qed

lemma answer_query_opt_eq: "answer_query_opt scan nums query = answer_query scan nums query"
  by (simp add: answer_query_opt_def answer_query_def count_loop_opt_eq select_loop_opt_eq
      split: sum.splits)

lemma query_loop_opt_eq: "query_loop_opt scan qs s = query_loop scan qs s"
proof (induction qs arbitrary: s)
  case Nil
  then show ?case by (cases s) simp
next
  case (Cons q qs)
  obtain result nums queries where s: "s = (result, nums, queries)" by (cases s)
  show ?case unfolding s by (simp add: answer_query_opt_eq Cons split: sum.splits)
qed

lemma valid_scan_single: "valid_scan scan \<Longrightarrow> scan [p] = [p]"
  unfolding valid_scan_def by (metis mset_single_iff_right)

lemma count_loop_single:
  assumes "0 \<le> i" and "i < int (length nums)"
  shows "count_loop nums i i [] =
    (if i = INT_MAX then Inl SignedOverflow else Inr [(nums ! nat i, 1)])"
  using assms by (subst count_loop.simps, subst count_loop.simps) simp

text \<open>
  The counts of a table the range scan returns fit an \<^verbatim>\<open>int\<close>: \<^verbatim>\<open>freq[nums[i]]++\<close> does not
  overflow in an iteration that the increment \<^verbatim>\<open>i++\<close> survives.
\<close>

lemma count_list_le_length: "count_list xs x \<le> length xs"
  by (induction xs) auto

lemma counts_fit_int:
  assumes "0 \<le> left" and "right \<le> INT_MAX" and "right < int (length nums)"
    and "count_loop nums left right [] = Inr t" and "(k, c) \<in> set t"
  shows "1 \<le> c \<and> c \<le> INT_MAX"
proof -
  have t: "t = table nums left right"
    unfolding table_def using assms(1,3,4) by (rule count_loop_Inr)
  then have c: "1 \<le> c" "c = occ nums left right k" using assms(5) by (simp_all add: table_entry)
  have lr: "left \<le> right"
  proof (rule ccontr)
    assume "\<not> left \<le> right"
    then have "slice nums left right = []" by (simp add: slice_empty)
    then show False using t assms(5) by (simp add: table_def)
  qed
  have "right \<noteq> INT_MAX"
  proof
    assume "right = INT_MAX"
    then have "count_loop nums left right [] = Inl SignedOverflow"
      using assms(1,3) lr by (intro count_loop_overflow) simp_all
    then show False using assms(4) by simp
  qed
  then have "right < INT_MAX" using assms(2) by simp
  moreover have "c \<le> int (length (slice nums left right))"
    unfolding c(2) occ_def using count_list_le_length [of "slice nums left right" k] by simp
  moreover have "int (length (slice nums left right)) \<le> right - left + 1"
    using lr by (simp add: slice_def)
  ultimately show ?thesis using c(1) assms(1) by linarith
qed

text \<open>
  Where the value \<open>-1\<close> stays below the threshold of every query, the outcome of a call is
  the same in every order of iteration.
\<close>

lemma query_loop_scan_independent:
  assumes "valid_scan scan" and "valid_scan scan'"
    and "\<forall>q\<in>set qs. valid_query nums q \<and> 1 \<le> q ! 2 \<and> occ nums (q ! 0) (q ! 1) (-1) < q ! 2"
  shows "query_loop scan qs (result, nums, queries) = query_loop scan' qs (result, nums, queries)"
  using assms(3)
proof (induction qs arbitrary: result)
  case Nil
  then show ?case by simp
next
  case (Cons q qs)
  have "answer_query scan nums q = answer_query scan' nums q"
    using Cons.prems by (intro answer_query_scan_independent [OF assms(1,2)]) simp_all
  moreover have "query_loop scan qs (r, nums, queries) = query_loop scan' qs (r, nums, queries)" for r
    using Cons.prems by (intro Cons.IH) simp
  ultimately show ?case by (simp split: sum.splits)
qed

lemma numOfSubarrays_scan_independent:
  assumes "valid_scan scan" and "valid_scan scan'"
    and "\<forall>q\<in>set queries. valid_query nums q \<and> 1 \<le> q ! 2 \<and> occ nums (q ! 0) (q ! 1) (-1) < q ! 2"
  shows "numOfSubarrays scan nums queries = numOfSubarrays scan' nums queries"
  unfolding numOfSubarrays_def by (rule query_loop_scan_independent [OF assms])

lemma valid_scan_id: "valid_scan id"
  by (simp add: valid_scan_def)

lemma valid_scan_rev: "valid_scan rev"
  by (simp add: valid_scan_def)

text \<open>
  Scenario 2 of the specification, in every order of iteration: in \<open>[1, 1, 2, 2]\<close> the
  values 1 and 2 both occur twice, and the answer to \<open>(0, 3, 2)\<close> is 1.
\<close>

lemma scenario_tie_any_scan:
  assumes "valid_scan scan"
  shows "numOfSubarrays scan [1, 1, 2, 2] [[0, 3, 2]] = Inr ([1], [1, 1, 2, 2], [[0, 3, 2]])"
proof -
  let ?nums = "[1, 1, 2, 2] :: int list"
  define a where "a = fst (select_loop 2 (scan (table ?nums 0 3)) (-1, 0))"
  have o: "occ ?nums 0 3 v = (if v = 1 then 2 else if v = 2 then 2 else 0)" for v
    by (simp add: occ_def slice_def)
  have v: "valid_query ?nums [0, 3, 2]" "[0, 3, 2 :: int] ! 1 < INT_MAX"
    by (simp_all add: valid_query_def INT_MAX_def)
  have run: "answer_query scan ?nums [0, 3, 2] = Inr a"
    using answer_query_run [OF v, of scan] by (simp add: a_def)
  have "(a = -1 \<longleftrightarrow> (\<forall>v. occ ?nums 0 3 v < 2)) \<and>
         (a \<noteq> -1 \<longrightarrow> 2 \<le> occ ?nums 0 3 a \<and>
            (\<forall>v. 2 \<le> occ ?nums 0 3 v \<longrightarrow>
               \<not> (occ ?nums 0 3 v > occ ?nums 0 3 a \<or>
                  (occ ?nums 0 3 v = occ ?nums 0 3 a \<and> v < a))))"
    by (rule select_table_correct [OF assms _ _ a_def]) (simp_all add: o)
  then have F1: "a = -1 \<longleftrightarrow> (\<forall>v. occ ?nums 0 3 v < 2)"
    and F2: "a \<noteq> -1 \<longrightarrow> 2 \<le> occ ?nums 0 3 a \<and>
            (\<forall>v. 2 \<le> occ ?nums 0 3 v \<longrightarrow>
               \<not> (occ ?nums 0 3 v > occ ?nums 0 3 a \<or>
                  (occ ?nums 0 3 v = occ ?nums 0 3 a \<and> v < a)))"
    by (rule conjunct1, rule conjunct2)
  have "\<not> (\<forall>v. occ ?nums 0 3 v < 2)"
  proof
    assume "\<forall>v. occ ?nums 0 3 v < 2"
    then have "occ ?nums 0 3 1 < 2" ..
    then show False by (simp add: o)
  qed
  then have a1: "a \<noteq> -1" using F1 by simp
  then have "2 \<le> occ ?nums 0 3 a" using F2 by simp
  then have a12: "a = 1 \<or> a = 2" by (simp add: o split: if_splits)
  have "2 \<le> occ ?nums 0 3 1 \<longrightarrow>
      \<not> (occ ?nums 0 3 1 > occ ?nums 0 3 a \<or> (occ ?nums 0 3 1 = occ ?nums 0 3 a \<and> 1 < a))"
    using F2 a1 by simp
  then have "a \<noteq> 2" by (auto simp: o)
  then have "a = 1" using a12 by simp
  then show ?thesis using run by (simp add: numOfSubarrays_def)
qed

section \<open>The claims\<close>

subsection \<open>C1: the answer is the most frequent value that reaches the threshold\<close>

text \<open>
  Claim C1: for a query with \<open>0 \<le> left \<le> right < length(array)\<close> and \<open>threshold \<ge> 1\<close>, an
  answer other than \<open>-1\<close> occurs at least \<open>threshold\<close> times in \<open>array[left..right]\<close>, and no
  other value of the range has a higher count, or the same count and a smaller value.

  Lemma \<open>answer_query_correct\<close> above proves this for every range in which the value
  \<open>-1\<close> stays below the threshold. The code breaks it where \<open>-1\<close> is the most frequent
  value: line 28 tests \<^verbatim>\<open>answer == -1\<close> for "nothing chosen yet", so once the value \<open>-1\<close>
  has been chosen, the next pair that reaches the threshold replaces it, whatever its
  count (lemma \<open>minus_one_only_when_last\<close>). In \<open>[5, -1, -1, 7]\<close> with the query
  \<open>(0, 3, 1)\<close> the value \<open>-1\<close> occurs twice, and the answer is \<open>7\<close> (count 1) when the
  table is visited in order of insertion, and \<open>5\<close> (count 1) when it is visited in the
  reverse order.
\<close>

theorem mode_lost_after_minus_one:
  "numOfSubarrays id [5, -1, -1, 7] [[0, 3, 1]] = Inr ([7], [5, -1, -1, 7], [[0, 3, 1]]) \<and>
   numOfSubarrays rev [5, -1, -1, 7] [[0, 3, 1]] = Inr ([5], [5, -1, -1, 7], [[0, 3, 1]]) \<and>
   occ [5, -1, -1, 7] 0 3 7 = 1 \<and> occ [5, -1, -1, 7] 0 3 5 = 1 \<and>
   occ [5, -1, -1, 7] 0 3 (-1) = 2"
  by (simp add: numOfSubarrays_def answer_query_def count_loop.simps INT_MAX_def occ_def slice_def)

subsection \<open>C2: ties go to the smaller value, whatever the order of the scan\<close>

text \<open>
  Claim C2: when several values of \<open>array[left..right]\<close> share the highest count that
  reaches the threshold, the answer is the smallest of them, in whatever order the table is
  scanned.

  Lemma \<open>answer_query_scan_independent\<close> above proves the independence for every range in
  which \<open>-1\<close> stays below the threshold. The test \<^verbatim>\<open>answer == -1\<close> of line 28 breaks it
  where \<open>-1\<close> is among the tied values: in \<open>[3, 3, -1, -1, 4, 4]\<close> with the query
  \<open>(0, 5, 2)\<close> the values \<open>-1\<close>, \<open>3\<close> and \<open>4\<close> all occur twice, the smallest is \<open>-1\<close>, and the
  answer is \<open>4\<close> in order of insertion and \<open>3\<close> in the reverse order.
\<close>

theorem tie_lost_after_minus_one:
  "numOfSubarrays id [3, 3, -1, -1, 4, 4] [[0, 5, 2]]
     = Inr ([4], [3, 3, -1, -1, 4, 4], [[0, 5, 2]]) \<and>
   numOfSubarrays rev [3, 3, -1, -1, 4, 4] [[0, 5, 2]]
     = Inr ([3], [3, 3, -1, -1, 4, 4], [[0, 5, 2]]) \<and>
   occ [3, 3, -1, -1, 4, 4] 0 5 (-1) = 2 \<and> occ [3, 3, -1, -1, 4, 4] 0 5 3 = 2 \<and>
   occ [3, 3, -1, -1, 4, 4] 0 5 4 = 2"
  by (simp add: numOfSubarrays_def answer_query_def count_loop.simps INT_MAX_def occ_def slice_def)

subsection \<open>C3: the sentinel\<close>

text \<open>
  Claim C3, as amended: when every query satisfies the preconditions and has
  \<open>right < INT_MAX\<close>, the call returns normally with one answer per query; the answer is
  \<open>-1\<close> whenever no value's count in \<open>array[left..right]\<close> reaches \<open>threshold\<close>; and, when
  \<open>threshold \<ge> 1\<close> and the value \<open>-1\<close> itself occurs fewer than \<open>threshold\<close> times in the
  range, an answer \<open>-1\<close> means that no value's count reaches \<open>threshold\<close>.
\<close>

theorem sentinel_iff_none:
  assumes "valid_scan scan"
    and "\<forall>q\<in>set queries. valid_query nums q \<and> q ! 1 < INT_MAX"
  shows "\<exists>result. numOfSubarrays scan nums queries = Inr (result, nums, queries) \<and>
    length result = length queries \<and>
    (\<forall>i<length queries.
       ((\<forall>v. occ nums (queries ! i ! 0) (queries ! i ! 1) v < queries ! i ! 2)
          \<longrightarrow> result ! i = -1) \<and>
       (1 \<le> queries ! i ! 2 \<and>
        occ nums (queries ! i ! 0) (queries ! i ! 1) (-1) < queries ! i ! 2 \<and>
        result ! i = -1
          \<longrightarrow> (\<forall>v. occ nums (queries ! i ! 0) (queries ! i ! 1) v < queries ! i ! 2)))"
proof -
  have "\<exists>a. answer_query scan nums q = Inr a" if "q \<in> set queries" for q
  proof -
    have "valid_query nums q" "q ! 1 < INT_MAX" using assms(2) that by auto
    then show ?thesis by (simp only: answer_query_run) simp
  qed
  then have "\<forall>q\<in>set queries. \<exists>a. answer_query scan nums q = Inr a" ..
  from query_loop_total [OF this, of "[]" queries]
  obtain result where run: "numOfSubarrays scan nums queries = Inr (result, nums, queries)"
    unfolding numOfSubarrays_def ..
  note nth = numOfSubarrays_nth [OF run]
  have "((\<forall>v. occ nums (queries ! i ! 0) (queries ! i ! 1) v < queries ! i ! 2)
          \<longrightarrow> result ! i = -1) \<and>
       (1 \<le> queries ! i ! 2 \<and>
        occ nums (queries ! i ! 0) (queries ! i ! 1) (-1) < queries ! i ! 2 \<and>
        result ! i = -1
          \<longrightarrow> (\<forall>v. occ nums (queries ! i ! 0) (queries ! i ! 1) v < queries ! i ! 2))"
    if i: "i < length queries" for i
  proof (intro conjI impI)
    have v: "valid_query nums (queries ! i)" using assms(2) i by simp
    have a: "answer_query scan nums (queries ! i) = Inr (result ! i)" using nth i by simp
    {
      assume "\<forall>v. occ nums (queries ! i ! 0) (queries ! i ! 1) v < queries ! i ! 2"
      then show "result ! i = -1" by (rule answer_query_none [OF assms(1) v a])
    }
    {
      assume h: "1 \<le> queries ! i ! 2 \<and>
        occ nums (queries ! i ! 0) (queries ! i ! 1) (-1) < queries ! i ! 2 \<and>
        result ! i = -1"
      then have h1: "1 \<le> queries ! i ! 2"
        and h2: "occ nums (queries ! i ! 0) (queries ! i ! 1) (-1) < queries ! i ! 2"
        and h3: "result ! i = -1" by blast+
      from answer_query_correct [OF assms(1) v h1 h2 a] h3
      show "\<forall>v. occ nums (queries ! i ! 0) (queries ! i ! 1) v < queries ! i ! 2" by blast
    }
  qed
  with run nth show ?thesis by blast
qed

text \<open>
  The theorem at \<open>[4, 4, 4, 1, 1]\<close> with the queries \<open>(0, 4, 3)\<close> and \<open>(0, 4, 4)\<close>: the first
  answer is not the sentinel, the second is.
\<close>

theorem sentinel_iff_none_witness:
  "valid_scan id \<and>
   valid_query [4, 4, 4, 1, 1] [0, 4, 3] \<and> valid_query [4, 4, 4, 1, 1] [0, 4, 4] \<and>
   (4::int) < INT_MAX \<and>
   (\<exists>result. numOfSubarrays id [4, 4, 4, 1, 1] [[0, 4, 3], [0, 4, 4]]
        = Inr (result, [4, 4, 4, 1, 1], [[0, 4, 3], [0, 4, 4]]) \<and>
      length result = 2 \<and> result ! 0 \<noteq> -1 \<and> result ! 1 = -1)"
proof -
  let ?nums = "[4, 4, 4, 1, 1] :: int list"
  let ?qs = "[[0, 4, 3], [0, 4, 4]] :: int list list"
  have s: "valid_scan id" by (simp add: valid_scan_def)
  have v: "valid_query ?nums [0, 4, 3]" "valid_query ?nums [0, 4, 4]" "(4::int) < INT_MAX"
    by (simp_all add: valid_query_def INT_MAX_def)
  then have q: "\<forall>q\<in>set ?qs. valid_query ?nums q \<and> q ! 1 < INT_MAX" by simp
  have o: "occ ?nums 0 4 v = (if v = 4 then 3 else if v = 1 then 2 else 0)" for v
    by (simp add: occ_def slice_def)
  from sentinel_iff_none [OF s q] obtain result where
    R: "numOfSubarrays id ?nums ?qs = Inr (result, ?nums, ?qs) \<and>
      length result = length ?qs \<and>
      (\<forall>i<length ?qs.
         ((\<forall>v. occ ?nums (?qs ! i ! 0) (?qs ! i ! 1) v < ?qs ! i ! 2) \<longrightarrow> result ! i = -1) \<and>
         (1 \<le> ?qs ! i ! 2 \<and> occ ?nums (?qs ! i ! 0) (?qs ! i ! 1) (-1) < ?qs ! i ! 2 \<and>
          result ! i = -1
            \<longrightarrow> (\<forall>v. occ ?nums (?qs ! i ! 0) (?qs ! i ! 1) v < ?qs ! i ! 2)))" ..
  note r = R [THEN conjunct1]
  have l: "length result = 2" using R [THEN conjunct2, THEN conjunct1] by simp
  note P = R [THEN conjunct2, THEN conjunct2, rule_format]
  have i0: "(0::nat) < length ?qs" and i1: "(1::nat) < length ?qs" by simp_all
  have "(\<forall>v. occ ?nums 0 4 v < 4) \<longrightarrow> result ! 1 = -1"
    using P [OF i1, THEN conjunct1] by simp
  then have r1: "result ! 1 = -1" by (simp add: o)
  have "1 \<le> (3::int) \<and> occ ?nums 0 4 (-1) < 3 \<and> result ! 0 = -1 \<longrightarrow> (\<forall>v. occ ?nums 0 4 v < 3)"
    using P [OF i0, THEN conjunct2] by simp
  moreover have "occ ?nums 0 4 (-1) < 3" "\<not> occ ?nums 0 4 4 < 3" by (simp_all add: o)
  ultimately have r0: "result ! 0 \<noteq> -1" by auto
  from r l r0 r1 have "\<exists>result. numOfSubarrays id ?nums ?qs = Inr (result, ?nums, ?qs) \<and>
      length result = 2 \<and> result ! 0 \<noteq> -1 \<and> result ! 1 = -1" by blast
  with s v show ?thesis by blast
qed

text \<open>
  Claim C3 as it was stated, the answer is \<open>-1\<close> only if no value reaches the threshold, fails
  on an array that holds the value \<open>-1\<close>: in \<open>[-1]\<close> with the query \<open>(0, 0, 1)\<close> the value
  \<open>-1\<close> reaches the threshold, and the answer \<open>-1\<close> is that value. (A table of one pair has
  one order of iteration.)
\<close>

theorem sentinel_collides:
  "valid_query [-1] [0, 0, 1] \<and>
   numOfSubarrays id [-1] [[0, 0, 1]] = Inr ([-1], [-1], [[0, 0, 1]]) \<and>
   occ [-1] 0 0 (-1) = 1"
  by (simp add: valid_query_def numOfSubarrays_def answer_query_def count_loop.simps INT_MAX_def
      occ_def slice_def)

subsection \<open>C4: one answer per query, in the order of the queries\<close>

text \<open>
  Claim C4: the output has exactly one element per query, \<open>output[i]\<close> is the answer to
  \<open>queries[i]\<close>, and an empty sequence of queries yields an empty output. The answer to a
  query is what the body of the loop (lines 11-35) computes for it, \<open>answer_query\<close>. A call
  returns whenever its queries satisfy the preconditions with \<open>right < INT_MAX\<close>.
\<close>

theorem one_answer_per_query:
  "(numOfSubarrays scan nums queries = Inr (result, nums', queries') \<longrightarrow>
      length result = length queries \<and>
      (\<forall>i<length queries. answer_query scan nums (queries ! i) = Inr (result ! i))) \<and>
   numOfSubarrays scan nums [] = Inr ([], nums, []) \<and>
   ((\<forall>q\<in>set queries. valid_query nums q \<and> q ! 1 < INT_MAX) \<longrightarrow>
      (\<exists>result. numOfSubarrays scan nums queries = Inr (result, nums, queries)))"
proof -
  have "\<exists>result. numOfSubarrays scan nums queries = Inr (result, nums, queries)"
    if h: "\<forall>q\<in>set queries. valid_query nums q \<and> q ! 1 < INT_MAX"
  proof -
    have "\<exists>a. answer_query scan nums q = Inr a" if "q \<in> set queries" for q
    proof -
      have "valid_query nums q" "q ! 1 < INT_MAX" using h that by auto
      then show ?thesis by (simp only: answer_query_run) simp
    qed
    then have "\<forall>q\<in>set queries. \<exists>a. answer_query scan nums q = Inr a" ..
    from query_loop_total [OF this, of "[]" queries] show ?thesis
      unfolding numOfSubarrays_def .
  qed
  then show ?thesis
    using numOfSubarrays_nth [of scan nums queries result nums' queries']
    by (simp add: numOfSubarrays_def)
qed

text \<open>The theorem at scenario 4: \<open>[4, 4, 4, 1, 1]\<close> with \<open>(0, 4, 3)\<close> and \<open>(0, 4, 4)\<close>.\<close>

theorem one_answer_per_query_witness:
  "numOfSubarrays id [4, 4, 4, 1, 1] [[0, 4, 3], [0, 4, 4]]
     = Inr ([4, -1], [4, 4, 4, 1, 1], [[0, 4, 3], [0, 4, 4]]) \<and>
   length [4, -1 :: int] = length [[0, 4, 3], [0, 4, 4 :: int]] \<and>
   answer_query id [4, 4, 4, 1, 1] [0, 4, 3] = Inr 4 \<and>
   answer_query id [4, 4, 4, 1, 1] [0, 4, 4] = Inr (-1) \<and>
   numOfSubarrays id [4, 4, 4, 1, 1] [] = Inr ([], [4, 4, 4, 1, 1], [])"
proof -
  let ?nums = "[4, 4, 4, 1, 1] :: int list"
  let ?qs = "[[0, 4, 3], [0, 4, 4]] :: int list list"
  have run: "numOfSubarrays id ?nums ?qs = Inr ([4, -1], ?nums, ?qs)"
    by (simp add: numOfSubarrays_def answer_query_def count_loop.simps INT_MAX_def)
  note T = one_answer_per_query [of id ?nums ?qs "[4, -1]" ?nums ?qs]
  note N = T [THEN conjunct1, rule_format, OF run]
  have i0: "(0::nat) < length ?qs" and i1: "(1::nat) < length ?qs" by simp_all
  have a0: "answer_query id ?nums [0, 4, 3] = Inr 4"
    using N [THEN conjunct2, rule_format, OF i0] by simp
  have a1: "answer_query id ?nums [0, 4, 4] = Inr (-1)"
    using N [THEN conjunct2, rule_format, OF i1] by simp
  have e: "numOfSubarrays id ?nums [] = Inr ([], ?nums, [])"
    by (rule T [THEN conjunct2, THEN conjunct1])
  show ?thesis using run a0 a1 e by simp
qed

subsection \<open>C5: the two classes\<close>

text \<open>
  Claim C5: \<^verbatim>\<open>Solution::numOfSubarrays\<close> and \<^verbatim>\<open>SolutionOptimized::numOfSubarrays\<close> return
  the same output for every array and every sequence of queries (with one library, hence
  one order of iteration, under both), undefined behaviour included.
\<close>

theorem optimized_same_results:
  "numOfSubarrays_opt scan nums queries = numOfSubarrays scan nums queries"
  by (simp add: numOfSubarrays_opt_def numOfSubarrays_def query_loop_opt_eq)

subsection \<open>C6: a range of one element\<close>

text \<open>
  Claim C6: for a query with \<open>left = right\<close> the table has exactly one entry, with count 1,
  and the answer is \<open>array[left]\<close> if \<open>threshold \<le> 1\<close> and \<open>-1\<close> otherwise; so it is
  \<open>array[left]\<close> for threshold 1 and \<open>-1\<close> for threshold 2. The first half of the theorem
  is about the query on its own, the second about its place in a batch the method
  answered.
\<close>

theorem single_element_range:
  assumes "valid_scan scan"
    and "i < length queries"
    and "valid_query nums (queries ! i)"
    and "queries ! i ! 0 = queries ! i ! 1"
  shows "(queries ! i ! 1 < INT_MAX \<longrightarrow>
           count_loop nums (queries ! i ! 0) (queries ! i ! 1) []
             = Inr [(nums ! nat (queries ! i ! 0), 1)] \<and>
           answer_query scan nums (queries ! i)
             = Inr (if queries ! i ! 2 \<le> 1 then nums ! nat (queries ! i ! 0) else -1)) \<and>
         (numOfSubarrays scan nums queries = Inr (result, nums', queries') \<longrightarrow>
           result ! i = (if queries ! i ! 2 \<le> 1 then nums ! nat (queries ! i ! 0) else -1))"
proof -
  define query where "query = queries ! i"
  define left where "left = query ! 0"
  define th where "th = query ! 2"
  have r: "query ! 1 = left" using assms(4) by (simp add: query_def left_def)
  have v: "3 \<le> length query" "0 \<le> left" "left < int (length nums)"
    using assms(3) r by (simp_all add: valid_query_def query_def [symmetric] left_def [symmetric])
  have c: "count_loop nums left left [] =
      (if left = INT_MAX then Inl SignedOverflow else Inr [(nums ! nat left, 1)])"
    by (rule count_loop_single [OF v(2,3)])
  have s: "fst (select_loop th (scan [(nums ! nat left, 1)]) (-1, 0))
      = (if th \<le> 1 then nums ! nat left else -1)"
    by (simp add: valid_scan_single [OF assms(1)])
  have a: "answer_query scan nums query =
      (if left = INT_MAX then Inl SignedOverflow
       else Inr (if th \<le> 1 then nums ! nat left else -1))"
    using v(1) r c s by (simp add: answer_query_def left_def [symmetric] th_def [symmetric])
  have total: "left < INT_MAX \<longrightarrow>
      count_loop nums left left [] = Inr [(nums ! nat left, 1)] \<and>
      answer_query scan nums query = Inr (if th \<le> 1 then nums ! nat left else -1)"
    using a c by simp
  have partial: "result ! i = (if th \<le> 1 then nums ! nat left else -1)"
    if run: "numOfSubarrays scan nums queries = Inr (result, nums', queries')"
  proof -
    have "answer_query scan nums query = Inr (result ! i)"
      using numOfSubarrays_nth [OF run] assms(2) by (simp add: query_def)
    then show ?thesis using a by (simp split: if_splits)
  qed
  show ?thesis
    using total partial r
    unfolding query_def [symmetric] left_def [symmetric] th_def [symmetric] by simp
qed

text \<open>The theorem at scenario 3: \<open>[5]\<close> with \<open>(0, 0, 1)\<close> and \<open>(0, 0, 2)\<close>.\<close>

theorem single_element_range_witness:
  "valid_scan id \<and> (0::nat) < length [[0, 0, 1], [0, 0, 2 :: int]] \<and>
   valid_query [5] [0, 0, 1] \<and> valid_query [5] [0, 0, 2] \<and>
   count_loop [5] 0 0 [] = Inr [(5, 1)] \<and>
   answer_query id [5] [0, 0, 1] = Inr 5 \<and>
   answer_query id [5] [0, 0, 2] = Inr (-1) \<and>
   numOfSubarrays id [5] [[0, 0, 1], [0, 0, 2]] = Inr ([5, -1], [5], [[0, 0, 1], [0, 0, 2]])"
proof -
  let ?qs = "[[0, 0, 1], [0, 0, 2]] :: int list list"
  have s: "valid_scan id" by (simp add: valid_scan_def)
  have i0: "(0::nat) < length ?qs" and i1: "(1::nat) < length ?qs" by simp_all
  have v0: "valid_query [5] (?qs ! 0)" and v1: "valid_query [5] (?qs ! 1)"
    by (simp_all add: valid_query_def)
  have e0: "?qs ! 0 ! 0 = ?qs ! 0 ! 1" and e1: "?qs ! 1 ! 0 = ?qs ! 1 ! 1" by simp_all
  have b0: "?qs ! 0 ! 1 < INT_MAX" and b1: "?qs ! 1 ! 1 < INT_MAX" by (simp_all add: INT_MAX_def)
  note T0 = single_element_range [OF s i0 v0 e0, of "[5, -1]" "[5]" ?qs]
  note T1 = single_element_range [OF s i1 v1 e1, of "[5, -1]" "[5]" ?qs]
  have c: "count_loop [5] 0 0 [] = Inr [(5, 1)]"
    using T0 [THEN conjunct1, rule_format, OF b0, THEN conjunct1] by simp
  have a0: "answer_query id [5] [0, 0, 1] = Inr 5"
    using T0 [THEN conjunct1, rule_format, OF b0, THEN conjunct2] by simp
  have a1: "answer_query id [5] [0, 0, 2] = Inr (-1)"
    using T1 [THEN conjunct1, rule_format, OF b1, THEN conjunct2] by simp
  have run: "numOfSubarrays id [5] ?qs = Inr ([5, -1], [5], ?qs)"
    by (simp add: numOfSubarrays_def a0 a1)
  show ?thesis using s v0 v1 c a0 a1 run by simp
qed

subsection \<open>C7: the same call twice\<close>

text \<open>
  Claim C7: two invocations with the same array and the same queries yield the same
  results. The method reads nothing but its two arguments; invoked again on the vectors
  as the first invocation left them, it returns what the first returned.
\<close>

theorem repeatable:
  assumes "numOfSubarrays scan nums queries = Inr (result, nums', queries')"
  shows "numOfSubarrays scan nums' queries' = Inr (result, nums', queries')"
proof -
  have "nums' = nums \<and> queries' = queries"
    using assms unfolding numOfSubarrays_def by (rule query_loop_frame)
  then show ?thesis using assms by simp
qed

text \<open>The theorem at scenario 2.\<close>

theorem repeatable_witness:
  "numOfSubarrays id [1, 1, 2, 2] [[0, 3, 2]] = Inr ([1], [1, 1, 2, 2], [[0, 3, 2]])"
proof -
  have "numOfSubarrays id [1, 1, 2, 2] [[0, 3, 2]] = Inr ([1], [1, 1, 2, 2], [[0, 3, 2]])"
    by (simp add: numOfSubarrays_def answer_query_def count_loop.simps INT_MAX_def)
  then show ?thesis by (rule repeatable)
qed

subsection \<open>C8: the arguments are left as they were\<close>

text \<open>
  Claim C8: the method has no effect but its output: when it returns, the array and the
  sequence of queries, both passed by reference, hold what they held at the call.
\<close>

theorem inputs_unchanged:
  assumes "numOfSubarrays scan nums queries = Inr (result, nums', queries')"
  shows "nums' = nums \<and> queries' = queries"
  using assms unfolding numOfSubarrays_def by (rule query_loop_frame)

text \<open>The theorem at scenario 1: \<open>[1, 2, 2, 3]\<close> with \<open>(0, 3, 2)\<close>.\<close>

theorem inputs_unchanged_witness:
  "numOfSubarrays id [1, 2, 2, 3] [[0, 3, 2]] = Inr ([2], [1, 2, 2, 3], [[0, 3, 2]]) \<and>
   [1, 2, 2, 3] = [1, 2, 2, 3 :: int] \<and> [[0, 3, 2]] = [[0, 3, 2 :: int]]"
proof -
  have run: "numOfSubarrays id [1, 2, 2, 3] [[0, 3, 2]] = Inr ([2], [1, 2, 2, 3], [[0, 3, 2]])"
    by (simp add: numOfSubarrays_def answer_query_def count_loop.simps INT_MAX_def)
  from inputs_unchanged [OF run] run show ?thesis by simp
qed

subsection \<open>C9: the answer depends on the range only\<close>

text \<open>
  Claim C9: for a query that satisfies the preconditions on two arrays that agree at every
  index of \<open>[left, right]\<close>, the method produces the same answer on both: the body of the
  loop has the same outcome, and so has the entry of the output in any batch answered on
  both arrays.
\<close>

theorem answer_depends_on_range_only:
  assumes "i < length queries"
    and "valid_query nums (queries ! i)" and "valid_query nums2 (queries ! i)"
    and "\<forall>j. queries ! i ! 0 \<le> j \<and> j \<le> queries ! i ! 1 \<longrightarrow> nums ! nat j = nums2 ! nat j"
  shows "answer_query scan nums (queries ! i) = answer_query scan nums2 (queries ! i) \<and>
    (numOfSubarrays scan nums queries = Inr (result, nums', queries') \<and>
     numOfSubarrays scan nums2 queries = Inr (result2, nums2', queries2')
       \<longrightarrow> result ! i = result2 ! i)"
proof -
  define query where "query = queries ! i"
  have v: "3 \<le> length query" "0 \<le> query ! 0" "query ! 1 < int (length nums)"
    "query ! 1 < int (length nums2)"
    using assms(2,3) by (simp_all add: valid_query_def query_def)
  have "count_loop nums (query ! 0) (query ! 1) [] = count_loop nums2 (query ! 0) (query ! 1) []"
    using v(2-4) assms(4) unfolding query_def [symmetric] by (rule count_loop_agree)
  then have eq: "answer_query scan nums query = answer_query scan nums2 query"
    by (simp add: answer_query_def)
  have "result ! i = result2 ! i"
    if "numOfSubarrays scan nums queries = Inr (result, nums', queries')"
      and "numOfSubarrays scan nums2 queries = Inr (result2, nums2', queries2')"
  proof -
    have "answer_query scan nums query = Inr (result ! i)"
      using numOfSubarrays_nth [OF that(1)] assms(1) by (simp add: query_def)
    moreover have "answer_query scan nums2 query = Inr (result2 ! i)"
      using numOfSubarrays_nth [OF that(2)] assms(1) by (simp add: query_def)
    ultimately show ?thesis using eq by simp
  qed
  then show ?thesis using eq unfolding query_def by blast
qed

text \<open>
  The theorem at the query \<open>(1, 2, 2)\<close> on \<open>[9, 1, 1, 9]\<close> and \<open>[0, 1, 1, 5, 5]\<close>, which
  agree at the indices 1 and 2 only.
\<close>

theorem answer_depends_on_range_only_witness:
  "valid_query [9, 1, 1, 9] [1, 2, 2] \<and> valid_query [0, 1, 1, 5, 5] [1, 2, 2] \<and>
   [9, 1, 1, 9 :: int] ! 1 = [0, 1, 1, 5, 5] ! 1 \<and> [9, 1, 1, 9 :: int] ! 2 = [0, 1, 1, 5, 5] ! 2 \<and>
   answer_query id [9, 1, 1, 9] [1, 2, 2] = Inr 1 \<and>
   answer_query id [0, 1, 1, 5, 5] [1, 2, 2] = Inr 1"
proof -
  let ?qs = "[[1, 2, 2]] :: int list list"
  have i: "(0::nat) < length ?qs" by simp
  have v: "valid_query [9, 1, 1, 9] (?qs ! 0)" "valid_query [0, 1, 1, 5, 5] (?qs ! 0)"
    by (simp_all add: valid_query_def)
  have ag: "\<forall>j. ?qs ! 0 ! 0 \<le> j \<and> j \<le> ?qs ! 0 ! 1
      \<longrightarrow> [9, 1, 1, 9 :: int] ! nat j = [0, 1, 1, 5, 5] ! nat j"
  proof (intro allI impI)
    fix j :: int
    assume "?qs ! 0 ! 0 \<le> j \<and> j \<le> ?qs ! 0 ! 1"
    then have "j = 1 \<or> j = 2" by auto
    then show "[9, 1, 1, 9 :: int] ! nat j = [0, 1, 1, 5, 5] ! nat j" by auto
  qed
  have a: "answer_query id [9, 1, 1, 9] [1, 2, 2] = Inr 1"
    by (simp add: answer_query_def count_loop.simps INT_MAX_def)
  have "answer_query id [9, 1, 1, 9] (?qs ! 0) = answer_query id [0, 1, 1, 5, 5] (?qs ! 0)"
    by (rule answer_depends_on_range_only [OF i v ag, THEN conjunct1])
  then have b: "answer_query id [0, 1, 1, 5, 5] [1, 2, 2] = Inr 1" using a by simp
  show ?thesis using v a b by simp
qed

subsection \<open>C10: termination\<close>

text \<open>
  Claim C10, as amended: the method terminates, returning one answer per query, for every
  input whose queries each satisfy \<open>0 \<le> left \<le> right < length(array)\<close> and
  \<open>right < INT_MAX\<close>. (The two loops of the model are total functions: the range scan by
  the measure \<open>right + 1 - i\<close>, the scan of the table by recursion on the list.)
\<close>

theorem returns_below_int_max:
  assumes "\<forall>q\<in>set queries. valid_query nums q \<and> q ! 1 < INT_MAX"
  shows "\<exists>result. numOfSubarrays scan nums queries = Inr (result, nums, queries) \<and>
    length result = length queries"
proof -
  have "\<exists>a. answer_query scan nums q = Inr a" if "q \<in> set queries" for q
  proof -
    have "valid_query nums q" "q ! 1 < INT_MAX" using assms that by auto
    then show ?thesis by (simp only: answer_query_run) simp
  qed
  then have "\<forall>q\<in>set queries. \<exists>a. answer_query scan nums q = Inr a" ..
  from query_loop_total [OF this, of "[]" queries]
  obtain result where run: "numOfSubarrays scan nums queries = Inr (result, nums, queries)"
    unfolding numOfSubarrays_def ..
  then show ?thesis using numOfSubarrays_nth [OF run] by blast
qed

text \<open>The theorem at scenario 4, the table visited in reverse order of insertion.\<close>

theorem returns_below_int_max_witness:
  "valid_query [4, 4, 4, 1, 1] [0, 4, 3] \<and> valid_query [4, 4, 4, 1, 1] [0, 4, 4] \<and>
   (4::int) < INT_MAX \<and>
   (\<exists>result. numOfSubarrays rev [4, 4, 4, 1, 1] [[0, 4, 3], [0, 4, 4]]
        = Inr (result, [4, 4, 4, 1, 1], [[0, 4, 3], [0, 4, 4]]) \<and>
      length result = 2)"
proof -
  let ?nums = "[4, 4, 4, 1, 1] :: int list"
  let ?qs = "[[0, 4, 3], [0, 4, 4]] :: int list list"
  have v: "valid_query ?nums [0, 4, 3]" "valid_query ?nums [0, 4, 4]" "(4::int) < INT_MAX"
    by (simp_all add: valid_query_def INT_MAX_def)
  then have q: "\<forall>q\<in>set ?qs. valid_query ?nums q \<and> q ! 1 < INT_MAX" by simp
  from returns_below_int_max [OF q, of rev] obtain result where
    R: "numOfSubarrays rev ?nums ?qs = Inr (result, ?nums, ?qs) \<and> length result = length ?qs" ..
  then have "numOfSubarrays rev ?nums ?qs = Inr (result, ?nums, ?qs) \<and> length result = 2"
    by simp
  then have "\<exists>result. numOfSubarrays rev ?nums ?qs = Inr (result, ?nums, ?qs) \<and>
      length result = 2" ..
  with v show ?thesis by blast
qed

text \<open>
  Claim C10 as it was stated fails for \<open>right = INT_MAX\<close>, which the precondition allows
  on an array of more than \<open>INT_MAX\<close> elements: the condition \<^verbatim>\<open>i <= right\<close> then holds for
  every \<^verbatim>\<open>int i\<close>, and the increment \<^verbatim>\<open>i++\<close> overflows at \<open>i = INT_MAX\<close>, so that the range
  scan has no normal exit. Here the array has \<open>2^31\<close> elements.
\<close>

theorem counter_overflows_at_int_max:
  "valid_query (replicate 2147483648 0) [0, 2147483647, 1] \<and>
   numOfSubarrays id (replicate 2147483648 0) [[0, 2147483647, 1]] = Inl SignedOverflow"
proof -
  have "count_loop (replicate 2147483648 0) 0 2147483647 [] = Inl SignedOverflow"
    by (rule count_loop_overflow) (simp_all add: INT_MAX_def)
  then show ?thesis
    by (simp add: valid_query_def numOfSubarrays_def answer_query_def)
qed

end
